theory Spec2Isabelle
  imports Main
begin

section \<open>The expiring key-value store (\<^verbatim>\<open>src/lib/cache.ts\<close>, \<^verbatim>\<open>lib/cache.js\<close>)\<close>

text \<open>
  The store holds values of TypeScript type \<^verbatim>\<open>unknown\<close>: any JavaScript value, and
  \<^verbatim>\<open>null\<close> among them. \<^verbatim>\<open>Cache.get\<close> answers with the stored value or with \<^verbatim>\<open>null\<close>, so
  \<^verbatim>\<open>null\<close> is a value of the same type as what is stored, not a separate "absent" marker.
\<close>

datatype 'a unknown = Null | Val 'a

text \<open>
  The object literal \<^verbatim>\<open>{ value, expires }\<close> kept in the \<^verbatim>\<open>Map\<close>. Instants and durations
  are milliseconds, as \<^verbatim>\<open>Date.now()\<close> counts them; they are integers here (JavaScript
  numbers are exact on integers below \<open>2 ^ 53\<close>).
\<close>

record 'a entry =
  val :: "'a unknown"
  expires :: int

text \<open>The class \<^verbatim>\<open>Cache\<close>: its private \<^verbatim>\<open>Map\<close> and its default timeout.\<close>

record 'a Cache =
  cache :: "string \<rightharpoonup> 'a entry"
  timeout :: int

text \<open>\<^verbatim>\<open>constructor(timeout)\<close>: an empty map.\<close>

definition new_Cache :: "int \<Rightarrow> 'a Cache" where
  "new_Cache t = \<lparr>cache = Map.empty, timeout = t\<rparr>"

text \<open>
  Every method that reads the clock takes the reading of \<^verbatim>\<open>Date.now()\<close> as its argument
  \<open>now\<close>; each method reads the clock at most once. A method returns its result together
  with the store it leaves behind.

  \<^verbatim>\<open>delete(key)\<close> and \<^verbatim>\<open>clear()\<close>:
\<close>

definition Cache_delete :: "string \<Rightarrow> 'a Cache \<Rightarrow> 'a Cache" where
  "Cache_delete key c = c\<lparr>cache := (cache c)(key := None)\<rparr>"

definition Cache_clear :: "'a Cache \<Rightarrow> 'a Cache" where
  "Cache_clear c = c\<lparr>cache := Map.empty\<rparr>"

text \<open>
  \<^verbatim>\<open>get(key)\<close>: when the map has the key, the entry is read (the TypeScript version
  guards against an absent entry with \<^verbatim>\<open>if (!found) return null\<close>), a live entry's value
  is returned, and an expired entry is deleted before \<^verbatim>\<open>null\<close> is returned.
\<close>

definition Cache_get :: "string \<Rightarrow> int \<Rightarrow> 'a Cache \<Rightarrow> 'a unknown \<times> 'a Cache" where
  "Cache_get key now c =
     (if cache c key \<noteq> None then
        (case cache c key of
           None \<Rightarrow> (Null, c)
         | Some found \<Rightarrow>
             if expires found > now then (val found, c)
             else (Null, Cache_delete key c))
      else (Null, c))"

text \<open>
  \<^verbatim>\<open>set(key, value, timeout = this.#timeout)\<close>: the optional third argument is an
  \<open>int option\<close>, \<open>None\<close> when the caller leaves it out.
\<close>

definition Cache_set :: "string \<Rightarrow> 'a unknown \<Rightarrow> int option \<Rightarrow> int \<Rightarrow> 'a Cache \<Rightarrow> 'a Cache" where
  "Cache_set key v ttl now c =
     c\<lparr>cache := (cache c)(key \<mapsto>
          \<lparr>val = v,
           expires = now + (case ttl of None \<Rightarrow> timeout c | Some t \<Rightarrow> t)\<rparr>)\<rparr>"

text \<open>\<^verbatim>\<open>has(key)\<close>: the body of \<^verbatim>\<open>get\<close> with booleans for results.\<close>

definition Cache_has :: "string \<Rightarrow> int \<Rightarrow> 'a Cache \<Rightarrow> bool \<times> 'a Cache" where
  "Cache_has key now c =
     (if cache c key \<noteq> None then
        (case cache c key of
           None \<Rightarrow> (False, c)
         | Some found \<Rightarrow>
             if expires found > now then (True, c)
             else (False, Cache_delete key c))
      else (False, c))"

text \<open>
  An entry is live at an instant when the map has it and its expiry instant is strictly
  later. This predicate is used to state properties; the methods above do not call it.
\<close>

definition live :: "int \<Rightarrow> 'a Cache \<Rightarrow> string \<Rightarrow> bool" where
  "live now c key = (case cache c key of None \<Rightarrow> False | Some e \<Rightarrow> expires e > now)"

section \<open>The cache-aware client (\<^verbatim>\<open>AccountsAPI\<close> in \<^verbatim>\<open>src/lib/utils.ts\<close>)\<close>

text \<open>
  The interfaces of \<^verbatim>\<open>utils.ts\<close>. The field \<^verbatim>\<open>id\<close> of a user is written \<open>id'\<close> (HOL has
  the identity function \<open>id\<close>); it is the key \<^verbatim>\<open>getUsers\<close> and \<^verbatim>\<open>verifyUser\<close> store a
  user under, so it is a string here: a user object the server answers with carries
  its own id. The other fields are optional as in the interface.
\<close>

record UserMetadata =
  avatar :: "string option"

record User =
  id' :: string
  username :: "string option"
  email :: "string option"
  roles :: "string list option"
  flags :: "string list option"
  created_at :: "int option"
  metadata :: "UserMetadata option"

datatype Scope = Basic | Email | Roles | Metadata | Security

record VerifyUserResponse =
  user :: User
  scope :: Scope

text \<open>
  What a method can throw: the plain \<^verbatim>\<open>Error\<close> of \<^verbatim>\<open>getUsers\<close>, or whatever the axios
  instance rejects with, which the response interceptor has turned into an
  \<^verbatim>\<open>AccountsAPIError(message, code)\<close> when the server answered, and left alone otherwise.
\<close>

datatype error = Error string | AccountsAPIError string int

text \<open>
  A call of the axios instance \<^verbatim>\<open>#request\<close>: \<^verbatim>\<open>get(url, { params })\<close> or \<^verbatim>\<open>post(url, body)\<close>,
  with the parameters or the body as a list of name and value.
\<close>

datatype request = GET string "(string \<times> string) list" | POST string "(string \<times> string) list"

text \<open>
  The transport is outside this development: each method takes it as a function \<open>rq\<close>
  from the request to either the rejection (\<open>Inl\<close>) or \<^verbatim>\<open>res.data\<close> (\<open>Inr\<close>). A method
  returns what it resolves or rejects with, the requests it has issued, in order, and
  the store it leaves behind.
\<close>

record 'r outcome =
  result :: "error + 'r"
  requests :: "request list"
  store :: "User Cache"

text \<open>
  The clock. Every call of a store method reads \<^verbatim>\<open>Date.now()\<close> anew, and an \<^verbatim>\<open>await\<close> lets
  time pass. A method of the client takes the readings as functions: \<open>clk n\<close> is the
  reading at the \<open>n\<close>-th store call it makes before its \<^verbatim>\<open>await\<close>, and \<open>clk' n\<close> the reading
  at the \<open>n\<close>-th store call it makes after it (both counted from 0).
\<close>

type_synonym clock = "nat \<Rightarrow> int"

text \<open>
  The constructor of \<^verbatim>\<open>AccountsAPI\<close> builds the store with
  \<^verbatim>\<open>new Cache(options.cacheTimeout || 300000)\<close>: an absent or zero \<^verbatim>\<open>cacheTimeout\<close> gives
  five minutes.
\<close>

definition AccountsAPI_cache :: "int option \<Rightarrow> User Cache" where
  "AccountsAPI_cache cacheTimeout =
     new_Cache (case cacheTimeout of None \<Rightarrow> 300000
                | Some t \<Rightarrow> if t = 0 then 300000 else t)"

text \<open>\<^verbatim>\<open>Array.prototype.join\<close> on an array of strings.\<close>

fun join :: "string \<Rightarrow> string list \<Rightarrow> string" where
  "join sep [] = []"
| "join sep [x] = x"
| "join sep (x # y # ys) = x @ sep @ join sep (y # ys)"

text \<open>
  \<^verbatim>\<open>getUser(id, force = false)\<close>. The test \<^verbatim>\<open>this.#cache.has(id) && !force\<close> calls \<^verbatim>\<open>has\<close>
  first, whatever \<^verbatim>\<open>force\<close> is, so its eviction happens on the forced path too.
\<close>

definition getUser ::
  "string \<Rightarrow> bool \<Rightarrow> clock \<Rightarrow> clock \<Rightarrow> (request \<Rightarrow> error + User unknown) \<Rightarrow> User Cache
     \<Rightarrow> User unknown outcome" where
  "getUser uid force clk clk' rq c =
     (case Cache_has uid (clk 0) c of (h, c1) \<Rightarrow>
        if h \<and> \<not> force then
          (case Cache_get uid (clk 1) c1 of (v, c2) \<Rightarrow>
             \<lparr>result = Inr v, requests = [], store = c2\<rparr>)
        else
          (case rq (GET (''/users/'' @ uid) []) of
             Inl e \<Rightarrow>
               \<lparr>result = Inl e, requests = [GET (''/users/'' @ uid) []], store = c1\<rparr>
           | Inr data \<Rightarrow>
               \<lparr>result = Inr data, requests = [GET (''/users/'' @ uid) []],
                store = Cache_set uid data None (clk' 0) c1\<rparr>))"

text \<open>
  The first loop of \<^verbatim>\<open>getUsers\<close>, \<^verbatim>\<open>for (const id of ids)\<close>: \<open>n\<close> counts the store calls made
  so far, \<open>notInCache\<close> and \<open>users\<close> are the two arrays the loop pushes onto.
\<close>

fun for_ids ::
  "string list \<Rightarrow> bool \<Rightarrow> clock \<Rightarrow> nat \<Rightarrow> string list \<Rightarrow> User unknown list \<Rightarrow> User Cache
     \<Rightarrow> string list \<times> User unknown list \<times> User Cache" where
  "for_ids [] force clk n notInCache users c = (notInCache, users, c)"
| "for_ids (uid # ids) force clk n notInCache users c =
     (case Cache_has uid (clk n) c of (h, c1) \<Rightarrow>
        if h \<and> \<not> force then
          (case Cache_get uid (clk (n + 1)) c1 of (v, c2) \<Rightarrow>
             for_ids ids force clk (n + 2) notInCache (users @ [v]) c2)
        else for_ids ids force clk (n + 1) (notInCache @ [uid]) users c1)"

text \<open>The second loop, \<^verbatim>\<open>for (const user of res.data)\<close>, after the \<^verbatim>\<open>await\<close>.\<close>

fun for_users ::
  "User list \<Rightarrow> clock \<Rightarrow> nat \<Rightarrow> User unknown list \<Rightarrow> User Cache
     \<Rightarrow> User unknown list \<times> User Cache" where
  "for_users [] clk' n users c = (users, c)"
| "for_users (u # data) clk' n users c =
     for_users data clk' (n + 1) (users @ [Val u]) (Cache_set (id' u) (Val u) None (clk' n) c)"

text \<open>\<^verbatim>\<open>getUsers(ids, force = false)\<close>.\<close>

definition getUsers ::
  "string list \<Rightarrow> bool \<Rightarrow> clock \<Rightarrow> clock \<Rightarrow> (request \<Rightarrow> error + User list) \<Rightarrow> User Cache
     \<Rightarrow> User unknown list outcome" where
  "getUsers ids force clk clk' rq c =
     (if length ids > 100 then
        \<lparr>result = Inl (Error ''Cannot get more than 100 users at once''),
         requests = [], store = c\<rparr>
      else
        (case for_ids ids force clk 0 [] [] c of (notInCache, users, c1) \<Rightarrow>
           if length notInCache > 0 then
             (case rq (GET ''/users/multiple'' [(''ids'', join '','' notInCache)]) of
                Inl e \<Rightarrow>
                  \<lparr>result = Inl e,
                   requests = [GET ''/users/multiple'' [(''ids'', join '','' notInCache)]],
                   store = c1\<rparr>
              | Inr data \<Rightarrow>
                  (case for_users data clk' 0 users c1 of (users', c2) \<Rightarrow>
                     \<lparr>result = Inr users',
                      requests = [GET ''/users/multiple'' [(''ids'', join '','' notInCache)]],
                      store = c2\<rparr>))
           else \<lparr>result = Inr users, requests = [], store = c1\<rparr>))"

text \<open>\<^verbatim>\<open>verifyUser(code)\<close>: no store call before the \<^verbatim>\<open>await\<close>, one \<^verbatim>\<open>set\<close> after it.\<close>

definition verifyUser ::
  "string \<Rightarrow> clock \<Rightarrow> (request \<Rightarrow> error + VerifyUserResponse) \<Rightarrow> User Cache
     \<Rightarrow> VerifyUserResponse outcome" where
  "verifyUser code clk' rq c =
     (case rq (POST ''/users/verify'' [(''code'', code)]) of
        Inl e \<Rightarrow>
          \<lparr>result = Inl e, requests = [POST ''/users/verify'' [(''code'', code)]], store = c\<rparr>
      | Inr data \<Rightarrow>
          \<lparr>result = Inr data, requests = [POST ''/users/verify'' [(''code'', code)]],
           store = Cache_set (id' (user data)) (Val (user data)) None (clk' 0) c\<rparr>)"

text \<open>
  For the statements about \<^verbatim>\<open>getUsers\<close>: the value the store holds under a key, and the
  store with the expired entries of the listed keys removed (what a walk of \<^verbatim>\<open>has\<close>
  calls at one instant leaves behind).
\<close>

definition stored :: "User Cache \<Rightarrow> string \<Rightarrow> User unknown" where
  "stored c key = (case cache c key of None \<Rightarrow> Null | Some e \<Rightarrow> val e)"

definition evicted :: "int \<Rightarrow> string list \<Rightarrow> User Cache \<Rightarrow> User Cache" where
  "evicted now ids c =
     c\<lparr>cache := (\<lambda>k. if k \<in> set ids \<and> \<not> live now c k then None else cache c k)\<rparr>"

text \<open>
  The record of a walk, for the statements about \<^verbatim>\<open>getUsers\<close>: each key of the list, in
  walk order, with what the first loop did with that occurrence. \<open>Hit v\<close>: \<^verbatim>\<open>has\<close> answered
  true with \<^verbatim>\<open>force\<close> false, and the \<^verbatim>\<open>get\<close> that follows answered \<open>v\<close>, which went onto
  \<^verbatim>\<open>users\<close>. \<open>Miss\<close>: the key went onto \<^verbatim>\<open>notInCache\<close> (\<^verbatim>\<open>has\<close> answered false, or \<^verbatim>\<open>force\<close>).
  The store calls, their order and their clock readings are those of the loop; the
  second component is the store the walk leaves.
\<close>

datatype lookup = Hit "User unknown" | Miss

fun lookups ::
  "string list \<Rightarrow> bool \<Rightarrow> clock \<Rightarrow> nat \<Rightarrow> User Cache \<Rightarrow> (string \<times> lookup) list \<times> User Cache" where
  "lookups [] force clk n c = ([], c)"
| "lookups (uid # ids) force clk n c =
     (case Cache_has uid (clk n) c of (h, c1) \<Rightarrow>
        if h \<and> \<not> force then
          (case Cache_get uid (clk (n + 1)) c1 of (v, c2) \<Rightarrow>
             (case lookups ids force clk (n + 2) c2 of (ls, c3) \<Rightarrow> ((uid, Hit v) # ls, c3)))
        else
          (case lookups ids force clk (n + 1) c1 of (ls, c3) \<Rightarrow> ((uid, Miss) # ls, c3)))"

text \<open>The keys of the missed occurrences and the values of the hit ones, in walk order.\<close>

fun miss_keys :: "(string \<times> lookup) list \<Rightarrow> string list" where
  "miss_keys [] = []"
| "miss_keys ((k, Miss) # ls) = k # miss_keys ls"
| "miss_keys ((k, Hit v) # ls) = miss_keys ls"

fun hit_values :: "(string \<times> lookup) list \<Rightarrow> User unknown list" where
  "hit_values [] = []"
| "hit_values ((k, Hit v) # ls) = v # hit_values ls"
| "hit_values ((k, Miss) # ls) = hit_values ls"

text \<open>A user object that carries its id and nothing else, for the worked examples.\<close>

definition bare_user :: "string \<Rightarrow> User" where
  "bare_user k = \<lparr>id' = k, username = None, email = None, roles = None, flags = None,
     created_at = None, metadata = None\<rparr>"

section \<open>Properties of the store\<close>

lemma Cache_eqI: "cache a = cache b \<Longrightarrow> timeout a = timeout b \<Longrightarrow> a = (b :: 'a Cache)"
  by simp

lemma cache_Cache_delete: "cache (Cache_delete key c) = (cache c)(key := None)"
  by (simp add: Cache_delete_def)

lemma timeout_Cache_delete: "timeout (Cache_delete key c) = timeout c"
  by (simp add: Cache_delete_def)

lemma cache_Cache_set:
  "cache (Cache_set key v ttl now c) =
     (cache c)(key \<mapsto> \<lparr>val = v, expires = now + (case ttl of None \<Rightarrow> timeout c | Some t \<Rightarrow> t)\<rparr>)"
  by (simp add: Cache_set_def)

lemma timeout_Cache_set: "timeout (Cache_set key v ttl now c) = timeout c"
  by (simp add: Cache_set_def)

lemma Cache_delete_absent: "cache c key = None \<Longrightarrow> Cache_delete key c = c"
proof -
  assume "cache c key = None"
  then have "(cache c)(key := None) = cache c"
    by (simp add: fun_upd_idem_iff)
  then show ?thesis
    by (simp add: Cache_delete_def)
qed

lemma Cache_has_fst: "fst (Cache_has key now c) = live now c key"
  by (simp add: Cache_has_def live_def split: option.split)

lemma Cache_has_snd:
  "snd (Cache_has key now c) = (if live now c key then c else Cache_delete key c)"
  by (cases "cache c key") (simp_all add: Cache_has_def live_def Cache_delete_absent)

lemma Cache_get_snd:
  "snd (Cache_get key now c) = (if live now c key then c else Cache_delete key c)"
  by (cases "cache c key") (simp_all add: Cache_get_def live_def Cache_delete_absent)

lemma Cache_get_fst:
  "fst (Cache_get key now c) =
     (if live now c key then val (the (cache c key)) else Null)"
  by (cases "cache c key") (simp_all add: Cache_get_def live_def)

lemma Cache_has_eq:
  "Cache_has key now c = (live now c key, if live now c key then c else Cache_delete key c)"
  by (rule prod_eqI) (simp_all add: Cache_has_fst Cache_has_snd)

lemma Cache_get_live: "live now c key \<Longrightarrow> Cache_get key now c = (stored c key, c)"
  by (cases "cache c key") (simp_all add: Cache_get_def live_def stored_def)

lemma timeout_Cache_has: "timeout (snd (Cache_has key now c)) = timeout c"
  by (simp add: Cache_has_snd timeout_Cache_delete)

lemma timeout_Cache_get: "timeout (snd (Cache_get key now c)) = timeout c"
  by (simp add: Cache_get_snd timeout_Cache_delete)

lemma cache_Cache_has_le: "cache (snd (Cache_has key now c)) \<subseteq>\<^sub>m cache c"
  by (simp add: Cache_has_snd cache_Cache_delete map_le_def)

lemma cache_Cache_get_le: "cache (snd (Cache_get key now c)) \<subseteq>\<^sub>m cache c"
  by (simp add: Cache_get_snd cache_Cache_delete map_le_def)

lemma live_after_set:
  "live now (Cache_set key v ttl t0 c) k =
     (if k = key then now < t0 + (case ttl of None \<Rightarrow> timeout c | Some t \<Rightarrow> t) else live now c k)"
  by (simp add: live_def Cache_set_def)

lemma stored_after_set:
  "stored (Cache_set key v ttl t0 c) k = (if k = key then v else stored c k)"
  by (simp add: stored_def Cache_set_def)

lemma live_AccountsAPI_cache: "live now (AccountsAPI_cache t) k = False"
  by (simp add: live_def AccountsAPI_cache_def new_Cache_def)

lemma timeout_AccountsAPI_cache_None: "timeout (AccountsAPI_cache None) = 300000"
  by (simp add: AccountsAPI_cache_def new_Cache_def)

lemma timeout_AccountsAPI_cache_Some: "t \<noteq> 0 \<Longrightarrow> timeout (AccountsAPI_cache (Some t)) = t"
  by (simp add: AccountsAPI_cache_def new_Cache_def)

lemma id'_bare_user: "id' (bare_user k) = k"
  by (simp add: bare_user_def)

text \<open>
  \<^bold>\<open>C1\<close> (expiry monotonicity). Let \<open>c'\<close> be a store whose entry for \<open>k\<close> is the one that
  \<open>set(k, v, ttl)\<close> wrote at instant \<open>t0\<close> (nothing has touched \<open>k\<close> since; \<open>d\<close> is the
  duration in force, the given one or the store's default). A \<open>get(k)\<close> at elapsed
  time \<open>t < d\<close> returns \<open>v\<close> and leaves the store as it is. A \<open>get(k)\<close> at elapsed time
  \<open>t \<ge> d\<close>, the boundary \<open>t = d\<close> included, returns \<open>null\<close> and leaves the store with the
  entry for \<open>k\<close> removed.
\<close>

theorem set_then_get:
  assumes "cache c' k = cache (Cache_set k v ttl t0 c) k"
    and "d = (case ttl of None \<Rightarrow> timeout c | Some x \<Rightarrow> x)"
  shows "(t < d \<longrightarrow> Cache_get k (t0 + t) c' = (v, c')) \<and>
         (d \<le> t \<longrightarrow> Cache_get k (t0 + t) c' = (Null, Cache_delete k c') \<and>
                     cache (snd (Cache_get k (t0 + t) c')) k = None)"
  using assms by (auto simp: Cache_get_def Cache_set_def Cache_delete_def)

theorem set_then_get_witness:
  "Cache_get ''u1'' (0 + 500) (Cache_set ''u1'' (Val (1::nat)) None 0 (new_Cache 1000))
     = (Val 1, Cache_set ''u1'' (Val 1) None 0 (new_Cache 1000)) \<and>
   Cache_get ''u1'' (0 + 1000) (Cache_set ''u1'' (Val (1::nat)) None 0 (new_Cache 1000))
     = (Null, Cache_delete ''u1'' (Cache_set ''u1'' (Val 1) None 0 (new_Cache 1000))) \<and>
   Cache_get ''u1'' (0 + 1500) (Cache_set ''u1'' (Val (1::nat)) (Some 1500) 0 (new_Cache 1000))
     = (Null, Cache_delete ''u1'' (Cache_set ''u1'' (Val 1) (Some 1500) 0 (new_Cache 1000)))"
  using
    set_then_get [of "Cache_set ''u1'' (Val (1::nat)) None 0 (new_Cache 1000)" "''u1''"
      "Val 1" None 0 "new_Cache 1000" 1000 500]
    set_then_get [of "Cache_set ''u1'' (Val (1::nat)) None 0 (new_Cache 1000)" "''u1''"
      "Val 1" None 0 "new_Cache 1000" 1000 1000]
    set_then_get [of "Cache_set ''u1'' (Val (1::nat)) (Some 1500) 0 (new_Cache 1000)" "''u1''"
      "Val 1" "Some 1500" 0 "new_Cache 1000" 1500 1500]
  by (simp add: new_Cache_def)

text \<open>
  \<^bold>\<open>C9\<close> (frame). An operation on key \<open>k\<close> leaves the entry of every other key \<open>k2\<close>
  (its value and its expiry instant, or its absence) as it was, and never changes the
  default timeout: this holds of \<open>get\<close>, \<open>has\<close>, \<open>set\<close> and \<open>delete\<close>. The lazy eviction
  of \<open>get\<close> and \<open>has\<close> removes at most the entry of the key queried.
\<close>

theorem store_frame:
  assumes "k \<noteq> k2"
  shows "cache (snd (Cache_get k now c)) k2 = cache c k2 \<and>
         cache (snd (Cache_has k now c)) k2 = cache c k2 \<and>
         cache (Cache_set k v ttl now c) k2 = cache c k2 \<and>
         cache (Cache_delete k c) k2 = cache c k2 \<and>
         timeout (snd (Cache_get k now c)) = timeout c \<and>
         timeout (snd (Cache_has k now c)) = timeout c \<and>
         timeout (Cache_set k v ttl now c) = timeout c \<and>
         timeout (Cache_delete k c) = timeout c"
  using assms
  by (simp add: Cache_get_snd Cache_has_snd Cache_set_def Cache_delete_def)

theorem store_frame_witness:
  "cache (snd (Cache_get ''a'' 2000
      (Cache_set ''a'' (Val (1::nat)) None 0 (Cache_set ''b'' (Val 2) None 0 (new_Cache 1000)))))
      ''b'' = Some \<lparr>val = Val 2, expires = 1000\<rparr> \<and>
   cache (snd (Cache_get ''a'' 2000
      (Cache_set ''a'' (Val (1::nat)) None 0 (Cache_set ''b'' (Val 2) None 0 (new_Cache 1000)))))
      ''a'' = None \<and>
   cache (snd (Cache_has ''a'' 2000
      (Cache_set ''a'' (Val (1::nat)) None 0 (Cache_set ''b'' (Val 2) None 0 (new_Cache 1000)))))
      ''b'' = Some \<lparr>val = Val 2, expires = 1000\<rparr> \<and>
   cache (Cache_set ''a'' (Val 3) (Some 5) 2000
      (Cache_set ''a'' (Val (1::nat)) None 0 (Cache_set ''b'' (Val 2) None 0 (new_Cache 1000))))
      ''b'' = Some \<lparr>val = Val 2, expires = 1000\<rparr> \<and>
   cache (Cache_delete ''a''
      (Cache_set ''a'' (Val (1::nat)) None 0 (Cache_set ''b'' (Val 2) None 0 (new_Cache 1000))))
      ''b'' = Some \<lparr>val = Val 2, expires = 1000\<rparr>"
  using store_frame [of "''a''" "''b''" 2000
      "Cache_set ''a'' (Val (1::nat)) None 0 (Cache_set ''b'' (Val 2) None 0 (new_Cache 1000))"
      "Val 3" "Some 5"]
  by (simp add: Cache_get_def Cache_set_def Cache_delete_def new_Cache_def)

text \<open>
  \<^bold>\<open>C7\<close> (\<open>has\<close> against \<open>get\<close>), as the code has it. At one instant \<open>has(k)\<close> and \<open>get(k)\<close>
  leave the same store behind; \<open>has(k)\<close> is true exactly when \<open>k\<close> has a live entry;
  when it is true \<open>get(k)\<close> returns that entry's value, and when it is false \<open>get(k)\<close>
  returns \<open>null\<close>. So \<open>has(k)\<close> is true exactly when \<open>get(k)\<close> is not \<open>null\<close> provided
  the value stored under \<open>k\<close> is not \<open>null\<close> itself.
\<close>

theorem has_agrees_with_get:
  "snd (Cache_has k now c) = snd (Cache_get k now c) \<and>
   fst (Cache_has k now c) = live now c k \<and>
   (fst (Cache_has k now c) \<longrightarrow>
      (\<exists>e. cache c k = Some e \<and> fst (Cache_get k now c) = val e)) \<and>
   (\<not> fst (Cache_has k now c) \<longrightarrow> fst (Cache_get k now c) = Null) \<and>
   ((\<forall>e. cache c k = Some e \<longrightarrow> val e \<noteq> Null) \<longrightarrow>
      fst (Cache_has k now c) = (fst (Cache_get k now c) \<noteq> Null))"
  by (cases "cache c k")
    (simp_all add: Cache_has_snd Cache_get_snd Cache_has_fst Cache_get_fst live_def)

theorem has_agrees_with_get_witness:
  "fst (Cache_has ''k'' 999 (Cache_set ''k'' (Val (7::nat)) None 0 (new_Cache 1000))) \<and>
   fst (Cache_get ''k'' 999 (Cache_set ''k'' (Val (7::nat)) None 0 (new_Cache 1000))) = Val 7 \<and>
   \<not> fst (Cache_has ''k'' 1000 (Cache_set ''k'' (Val (7::nat)) None 0 (new_Cache 1000))) \<and>
   fst (Cache_get ''k'' 1000 (Cache_set ''k'' (Val (7::nat)) None 0 (new_Cache 1000))) = Null \<and>
   snd (Cache_has ''k'' 1000 (Cache_set ''k'' (Val (7::nat)) None 0 (new_Cache 1000))) =
   snd (Cache_get ''k'' 1000 (Cache_set ''k'' (Val (7::nat)) None 0 (new_Cache 1000)))"
  using
    has_agrees_with_get [of "''k''" 999 "Cache_set ''k'' (Val (7::nat)) None 0 (new_Cache 1000)"]
    has_agrees_with_get [of "''k''" 1000 "Cache_set ''k'' (Val (7::nat)) None 0 (new_Cache 1000)"]
  by (simp add: live_def Cache_set_def new_Cache_def)

text \<open>
  The claim as the specification words it, "\<open>has(k)\<close> returns true exactly when \<open>get(k)\<close>
  returns a non-null value", fails on a store that holds \<open>null\<close> under a live entry:
  after \<^verbatim>\<open>set("k", null)\<close> at instant 0 with a timeout of 1000, at instant 0 still,
  \<^verbatim>\<open>has("k")\<close> is \<^verbatim>\<open>true\<close> and \<^verbatim>\<open>get("k")\<close> is \<^verbatim>\<open>null\<close>.
\<close>

theorem has_true_get_null_counterexample:
  "fst (Cache_has ''k'' 0 (Cache_set ''k'' (Null :: nat unknown) None 0 (new_Cache 1000))) = True \<and>
   fst (Cache_get ''k'' 0 (Cache_set ''k'' (Null :: nat unknown) None 0 (new_Cache 1000))) = Null"
  by (simp add: Cache_has_def Cache_get_def Cache_set_def new_Cache_def)

section \<open>Properties of \<^verbatim>\<open>getUser\<close> and \<^verbatim>\<open>verifyUser\<close>\<close>

text \<open>
  \<^bold>\<open>C6\<close> (single-key resolution). When \<open>force\<close> is false and \<open>has(id)\<close> answers true,
  \<open>getUser\<close> returns what \<open>get(id)\<close> answers and issues no request. Otherwise (a miss, or
  \<open>force\<close>) it issues the one request \<^verbatim>\<open>GET /users/<id>\<close>; when that succeeds with \<open>data\<close>
  it returns \<open>data\<close> and has written \<open>data\<close> under \<open>id\<close> with the default timeout, over
  whatever entry was there, a live one included.
\<close>

theorem getUser_cases:
  "(\<not> force \<and> fst (Cache_has uid (clk 0) c) \<longrightarrow>
      getUser uid force clk clk' rq c =
        \<lparr>result = Inr (fst (Cache_get uid (clk 1) c)), requests = [],
         store = snd (Cache_get uid (clk 1) c)\<rparr>) \<and>
   (force \<or> \<not> fst (Cache_has uid (clk 0) c) \<longrightarrow>
      requests (getUser uid force clk clk' rq c) = [GET (''/users/'' @ uid) []] \<and>
      (\<forall>data. rq (GET (''/users/'' @ uid) []) = Inr data \<longrightarrow>
         result (getUser uid force clk clk' rq c) = Inr data \<and>
         store (getUser uid force clk clk' rq c) =
           Cache_set uid data None (clk' 0) (snd (Cache_has uid (clk 0) c)) \<and>
         cache (store (getUser uid force clk clk' rq c)) uid =
           Some \<lparr>val = data, expires = clk' 0 + timeout c\<rparr>))"
  by (auto simp: getUser_def case_prod_beta Cache_has_fst Cache_has_snd cache_Cache_set
      timeout_Cache_delete split: sum.split)

theorem getUser_cases_witness:
  "getUser ''a'' False (\<lambda>n. 1000 + int n) (\<lambda>n. 1200 + int n) (\<lambda>_. Inr (Val (bare_user ''z'')))
      (Cache_set ''a'' (Val (bare_user ''a'')) None 0 (AccountsAPI_cache None))
     = \<lparr>result = Inr (Val (bare_user ''a'')), requests = [],
        store = Cache_set ''a'' (Val (bare_user ''a'')) None 0 (AccountsAPI_cache None)\<rparr> \<and>
   requests (getUser ''a'' True (\<lambda>n. 1000 + int n) (\<lambda>n. 1200 + int n) (\<lambda>_. Inr (Val (bare_user ''z'')))
      (Cache_set ''a'' (Val (bare_user ''a'')) None 0 (AccountsAPI_cache None)))
     = [GET ''/users/a'' []] \<and>
   result (getUser ''a'' True (\<lambda>n. 1000 + int n) (\<lambda>n. 1200 + int n) (\<lambda>_. Inr (Val (bare_user ''z'')))
      (Cache_set ''a'' (Val (bare_user ''a'')) None 0 (AccountsAPI_cache None)))
     = Inr (Val (bare_user ''z'')) \<and>
   cache (store (getUser ''a'' True (\<lambda>n. 1000 + int n) (\<lambda>n. 1200 + int n) (\<lambda>_. Inr (Val (bare_user ''z'')))
      (Cache_set ''a'' (Val (bare_user ''a'')) None 0 (AccountsAPI_cache None)))) ''a''
     = Some \<lparr>val = Val (bare_user ''z''), expires = 301200\<rparr>"
  using
    getUser_cases [of False "''a''" "\<lambda>n. 1000 + int n"
      "Cache_set ''a'' (Val (bare_user ''a'')) None 0 (AccountsAPI_cache None)"
      "\<lambda>n. 1200 + int n" "\<lambda>_. Inr (Val (bare_user ''z''))"]
    getUser_cases [of True "''a''" "\<lambda>n. 1000 + int n"
      "Cache_set ''a'' (Val (bare_user ''a'')) None 0 (AccountsAPI_cache None)"
      "\<lambda>n. 1200 + int n" "\<lambda>_. Inr (Val (bare_user ''z''))"]
  by (simp add: Cache_has_fst Cache_has_snd Cache_get_live live_after_set stored_after_set
      cache_Cache_set timeout_Cache_set timeout_AccountsAPI_cache_None)

text \<open>
  \<^bold>\<open>C8\<close> (the verification flow). When the request \<^verbatim>\<open>POST /users/verify\<close> succeeds with
  \<open>data\<close>, \<open>verifyUser\<close> returns \<open>data\<close> unchanged and has written the user of \<open>data\<close> under
  that user's own id, expiring at the instant of the write plus the default timeout;
  this is the entry a forced \<open>getUser\<close> of that id writes when it fetches the same user.
  No other entry changes.
\<close>

theorem verifyUser_writes_user:
  assumes "rq (POST ''/users/verify'' [(''code'', code)]) = Inr data"
  shows "verifyUser code clk' rq c =
           \<lparr>result = Inr data, requests = [POST ''/users/verify'' [(''code'', code)]],
            store = Cache_set (id' (user data)) (Val (user data)) None (clk' 0) c\<rparr> \<and>
         cache (store (verifyUser code clk' rq c)) (id' (user data)) =
           Some \<lparr>val = Val (user data), expires = clk' 0 + timeout c\<rparr> \<and>
         cache (store (verifyUser code clk' rq c)) (id' (user data)) =
           cache (store (getUser (id' (user data)) True clk clk'
                    (\<lambda>_. Inr (Val (user data))) c)) (id' (user data)) \<and>
         (\<forall>k. k \<noteq> id' (user data) \<longrightarrow> cache (store (verifyUser code clk' rq c)) k = cache c k) \<and>
         timeout (store (verifyUser code clk' rq c)) = timeout c"
  using assms
  by (simp add: verifyUser_def getUser_def case_prod_beta cache_Cache_set timeout_Cache_set
      timeout_Cache_has)

theorem verifyUser_writes_user_witness:
  "verifyUser ''code123'' (\<lambda>_. 50)
       (\<lambda>_. Inr \<lparr>user = bare_user ''u7'', scope = Email\<rparr>) (AccountsAPI_cache (Some 1000)) =
     \<lparr>result = Inr \<lparr>user = bare_user ''u7'', scope = Email\<rparr>,
      requests = [POST ''/users/verify'' [(''code'', ''code123'')]],
      store = Cache_set ''u7'' (Val (bare_user ''u7'')) None 50 (AccountsAPI_cache (Some 1000))\<rparr> \<and>
   cache (store (verifyUser ''code123'' (\<lambda>_. 50)
       (\<lambda>_. Inr \<lparr>user = bare_user ''u7'', scope = Email\<rparr>) (AccountsAPI_cache (Some 1000))))
     ''u7'' = Some \<lparr>val = Val (bare_user ''u7''), expires = 1050\<rparr>"
  using verifyUser_writes_user [of "\<lambda>_. Inr \<lparr>user = bare_user ''u7'', scope = Email\<rparr>"
      "''code123''" "\<lparr>user = bare_user ''u7'', scope = Email\<rparr>" "\<lambda>_. 50"
      "AccountsAPI_cache (Some 1000)" "\<lambda>_. 0"]
  by (simp add: id'_bare_user timeout_AccountsAPI_cache_Some cache_Cache_set)

section \<open>Properties of \<^verbatim>\<open>getUsers\<close>\<close>

text \<open>
  The two loops. The first loop is its record: the keys it pushes onto \<^verbatim>\<open>notInCache\<close>
  are the missed keys of the record and the values it pushes onto \<^verbatim>\<open>users\<close> the hit
  values, for every clock and either value of \<^verbatim>\<open>force\<close>. The loop makes at most two store
  calls for each key, so at most \<open>2 * length ids\<close> clock readings. A key that is live at
  each of them is a hit with its stored value at each of its occurrences, a key that is
  live at none of them is a miss at each of its occurrences, and a hit's value always
  comes from the entry the given store holds under its key: it is that entry's value,
  or \<^verbatim>\<open>null\<close> when the entry expires between the \<^verbatim>\<open>has\<close> and the \<^verbatim>\<open>get\<close>. When no listed key
  changes between live and expired over the readings, the record is the liveness of the
  keys at one instant.
\<close>

lemma live_delete_other:
  "\<not> live now c uid \<Longrightarrow> live now (Cache_delete uid c) = live now c"
  by (rule ext) (simp add: live_def Cache_delete_def)

lemma stored_delete_other:
  "k \<noteq> uid \<Longrightarrow> stored (Cache_delete uid c) k = stored c k"
  by (simp add: stored_def Cache_delete_def)

lemma cache_evicted:
  "cache (evicted now ids c) k = (if k \<in> set ids \<and> \<not> live now c k then None else cache c k)"
  by (simp add: evicted_def)

lemma timeout_evicted: "timeout (evicted now ids c) = timeout c"
  by (simp add: evicted_def)

lemma evicted_Cons_live:
  assumes "live now c uid"
  shows "evicted now (uid # ids) c = evicted now ids c"
proof (rule Cache_eqI)
  show "cache (evicted now (uid # ids) c) = cache (evicted now ids c)"
    using assms by (intro ext) (auto simp: cache_evicted)
qed (simp add: timeout_evicted)

lemma evicted_Cons_dead:
  assumes "\<not> live now c uid"
  shows "evicted now ids (Cache_delete uid c) = evicted now (uid # ids) c"
proof (rule Cache_eqI)
  show "cache (evicted now ids (Cache_delete uid c)) = cache (evicted now (uid # ids) c)"
    using assms
    by (intro ext) (simp add: cache_evicted live_delete_other cache_Cache_delete)
qed (simp add: timeout_evicted timeout_Cache_delete)

lemma evicted_all_live:
  assumes "filter (\<lambda>k. \<not> live now c k) ids = []"
  shows "evicted now ids c = c"
proof (rule Cache_eqI)
  have "\<forall>k. \<not> (k \<in> set ids \<and> \<not> live now c k)"
    using assms by (auto simp: filter_empty_conv)
  then show "cache (evicted now ids c) = cache c"
    by (intro ext) (auto simp: cache_evicted)
qed (simp add: timeout_evicted)

lemma live_Cache_delete:
  "live now (Cache_delete uid c) k = (k \<noteq> uid \<and> live now c k)"
  by (simp add: live_def Cache_delete_def)





lemma Cache_get_fst_stored:
  "fst (Cache_get key t c) = (if live t c key then stored c key else Null)"
  by (cases "cache c key") (simp_all add: Cache_get_def live_def stored_def)

lemma Cache_get_eq:
  "Cache_get key t c =
     (if live t c key then stored c key else Null, if live t c key then c else Cache_delete key c)"
  by (rule prod_eqI) (simp_all add: Cache_get_fst_stored Cache_get_snd)

lemma stored_Cache_delete:
  "stored (Cache_delete uid c) k = (if k = uid then Null else stored c k)"
  by (simp add: stored_def Cache_delete_def)

lemma for_ids_lookups:
  "for_ids ids force clk n notInCache users c =
     (notInCache @ miss_keys (fst (lookups ids force clk n c)),
      users @ hit_values (fst (lookups ids force clk n c)),
      snd (lookups ids force clk n c))"
  by (induction ids arbitrary: n notInCache users c) (auto simp: case_prod_beta)

lemma lookups_keys: "map fst (fst (lookups ids force clk n c)) = ids"
  by (induction ids arbitrary: n c) (auto simp: case_prod_beta)

lemma hits_and_misses: "length (hit_values ls) + length (miss_keys ls) = length ls"
  by (induction ls rule: miss_keys.induct) simp_all



lemma lookups_force:
  "fst (lookups ids True clk n c) = map (\<lambda>k. (k, Miss)) ids"
  by (induction ids arbitrary: n c) (simp_all add: case_prod_beta)


lemma hit_values_all_Miss: "hit_values (map (\<lambda>k. (k, Miss)) ids) = []"
  by (induction ids) simp_all

lemma miss_keys_map:
  "miss_keys (map (\<lambda>k. (k, if P k then Hit (f k) else Miss)) ids) = filter (\<lambda>k. \<not> P k) ids"
  by (induction ids) simp_all

lemma hit_values_map:
  "hit_values (map (\<lambda>k. (k, if P k then Hit (f k) else Miss)) ids) = map f (filter P ids)"
  by (induction ids) simp_all



lemma lookups_hit_origin:
  assumes "(k, Hit v) \<in> set (fst (lookups ids force clk n c))"
    and "cache c \<subseteq>\<^sub>m cache c0"
  shows "\<not> force \<and> (\<exists>e. cache c0 k = Some e \<and> (v = val e \<or> v = Null))"
  using assms
proof (induction ids arbitrary: n c)
  case Nil
  then show ?case by simp
next
  case (Cons uid ids)
  let ?c1 = "snd (Cache_has uid (clk n) c)"
  let ?c2 = "snd (Cache_get uid (clk (Suc n)) ?c1)"
  have c1: "cache ?c1 \<subseteq>\<^sub>m cache c0"
    using map_le_trans [OF cache_Cache_has_le Cons.prems(2)] .
  have c2: "cache ?c2 \<subseteq>\<^sub>m cache c0"
    using map_le_trans [OF cache_Cache_get_le c1] .
  show ?case
  proof (cases "fst (Cache_has uid (clk n) c) \<and> \<not> force")
    case True
    then have eq: "fst (lookups (uid # ids) force clk n c) =
        (uid, Hit (fst (Cache_get uid (clk (Suc n)) ?c1))) # fst (lookups ids force clk (Suc (Suc n)) ?c2)"
      by (simp add: case_prod_beta)
    show ?thesis
    proof (cases "(k, Hit v) \<in> set (fst (lookups ids force clk (Suc (Suc n)) ?c2))")
      case True
      from Cons.IH [OF True c2] show ?thesis .
    next
      case False
      with Cons.prems(1) eq have k: "k = uid" and v: "v = fst (Cache_get uid (clk (Suc n)) ?c1)"
        by simp_all
      from \<open>fst (Cache_has uid (clk n) c) \<and> \<not> force\<close> obtain e where e: "cache c uid = Some e"
        by (auto simp: Cache_has_fst live_def split: option.splits)
      with Cons.prems(2) have "cache c0 uid = Some e"
        by (auto simp: map_le_def dom_def)
      moreover from \<open>fst (Cache_has uid (clk n) c) \<and> \<not> force\<close> have "?c1 = c"
        by (simp add: Cache_has_snd Cache_has_fst)
      then have "v = val e \<or> v = Null"
        using e v by (simp add: Cache_get_fst)
      ultimately show ?thesis
        using True k by simp
    qed
  next
    case False
    then have eq: "fst (lookups (uid # ids) force clk n c) =
        (uid, Miss) # fst (lookups ids force clk (Suc n) ?c1)"
      by (auto simp: case_prod_beta)
    with Cons.prems(1) have "(k, Hit v) \<in> set (fst (lookups ids force clk (Suc n) ?c1))"
      by simp
    from Cons.IH [OF this c1] show ?thesis .
  qed
qed

lemma lookups_steady:
  assumes "\<forall>i < 2 * length ids. \<forall>k \<in> set ids. live (clk (n + i)) c k = live now c k"
  shows "lookups ids force clk n c =
     (map (\<lambda>k. (k, if live now c k \<and> \<not> force then Hit (stored c k) else Miss)) ids,
      evicted now ids c)"
  using assms
proof (induction ids arbitrary: n c)
  case Nil
  show ?case by (simp add: evicted_def)
next
  case (Cons uid ids)
  have at_has: "live (clk n) c uid = live now c uid"
    using Cons.prems [rule_format, of 0 uid] by simp
  have at_get: "live (clk (Suc n)) c uid = live now c uid"
    using Cons.prems [rule_format, of 1 uid] by simp
  have later: "\<forall>i < 2 * length ids. \<forall>k \<in> set ids. live (clk (Suc (Suc n) + i)) c k = live now c k"
  proof (intro allI impI ballI)
    fix i k
    assume "i < 2 * length ids" and "k \<in> set ids"
    then show "live (clk (Suc (Suc n) + i)) c k = live now c k"
      using Cons.prems [rule_format, of "2 + i" k] by simp
  qed
  have next_one: "\<forall>i < 2 * length ids. \<forall>k \<in> set ids. live (clk (Suc n + i)) c k = live now c k"
  proof (intro allI impI ballI)
    fix i k
    assume "i < 2 * length ids" and "k \<in> set ids"
    then show "live (clk (Suc n + i)) c k = live now c k"
      using Cons.prems [rule_format, of "1 + i" k] by simp
  qed
  show ?case
  proof (cases "live now c uid")
    case True
    show ?thesis
    proof (cases force)
      case True
      with \<open>live now c uid\<close> at_has Cons.IH [OF next_one] show ?thesis
        by (simp add: Cache_has_eq evicted_Cons_live)
    next
      case False
      with \<open>live now c uid\<close> at_has at_get Cons.IH [OF later] show ?thesis
        by (simp add: Cache_has_eq Cache_get_live evicted_Cons_live)
    qed
  next
    case False
    have "\<forall>i < 2 * length ids. \<forall>k \<in> set ids.
            live (clk (Suc n + i)) (Cache_delete uid c) k = live now (Cache_delete uid c) k"
      using next_one by (simp add: live_Cache_delete)
    note step = Cons.IH [OF this]
    have same: "map (\<lambda>k. (k, if live now c k \<and> \<not> force
                               then Hit (stored (Cache_delete uid c) k) else Miss)) ids =
                map (\<lambda>k. (k, if live now c k \<and> \<not> force then Hit (stored c k) else Miss)) ids"
      using False by (intro map_cong refl) (auto intro: stored_delete_other)
    show ?thesis
      using False at_has step
      by (simp add: Cache_has_eq live_delete_other evicted_Cons_dead same)
  qed
qed

lemma for_ids_store:
  "cache (snd (snd (for_ids ids force clk n notInCache users c))) \<subseteq>\<^sub>m cache c \<and>
   timeout (snd (snd (for_ids ids force clk n notInCache users c))) = timeout c"
proof (induction ids arbitrary: n notInCache users c)
  case Nil
  show ?case by simp
next
  case (Cons uid ids)
  let ?c1 = "snd (Cache_has uid (clk n) c)"
  let ?c2 = "snd (Cache_get uid (clk (n + 1)) ?c1)"
  have c1: "cache ?c1 \<subseteq>\<^sub>m cache c" "timeout ?c1 = timeout c"
    by (rule cache_Cache_has_le) (rule timeout_Cache_has)
  have c2: "cache ?c2 \<subseteq>\<^sub>m cache c" "timeout ?c2 = timeout c"
    using map_le_trans [OF cache_Cache_get_le c1(1)] c1(2)
    by (simp_all add: timeout_Cache_get)
  show ?case
  proof (cases "fst (Cache_has uid (clk n) c) \<and> \<not> force")
    case True
    then show ?thesis
      using Cons.IH [of "n + 2" notInCache "users @ [fst (Cache_get uid (clk (n + 1)) ?c1)]" ?c2] c2
      by (auto simp: case_prod_beta intro: map_le_trans)
  next
    case False
    then show ?thesis
      using Cons.IH [of "n + 1" "notInCache @ [uid]" users ?c1] c1
      by (auto simp: case_prod_beta intro: map_le_trans)
  qed
qed

lemma for_users_fst: "fst (for_users data clk' n users c) = users @ map Val data"
  by (induction data arbitrary: n users c) simp_all




lemma getUsers_lookups:
  assumes "length ids \<le> 100"
  shows "getUsers ids force clk clk' rq c =
     (if miss_keys (fst (lookups ids force clk 0 c)) = [] then
        \<lparr>result = Inr (hit_values (fst (lookups ids force clk 0 c))), requests = [],
         store = snd (lookups ids force clk 0 c)\<rparr>
      else
        (case rq (GET ''/users/multiple''
                    [(''ids'', join '','' (miss_keys (fst (lookups ids force clk 0 c))))]) of
           Inl e \<Rightarrow>
             \<lparr>result = Inl e,
              requests = [GET ''/users/multiple''
                    [(''ids'', join '','' (miss_keys (fst (lookups ids force clk 0 c))))]],
              store = snd (lookups ids force clk 0 c)\<rparr>
         | Inr data \<Rightarrow>
             \<lparr>result = Inr (hit_values (fst (lookups ids force clk 0 c)) @ map Val data),
              requests = [GET ''/users/multiple''
                    [(''ids'', join '','' (miss_keys (fst (lookups ids force clk 0 c))))]],
              store = snd (for_users data clk' 0
                 (hit_values (fst (lookups ids force clk 0 c)))
                 (snd (lookups ids force clk 0 c)))\<rparr>))"
  using assms
  by (simp add: getUsers_def for_ids_lookups case_prod_beta for_users_fst split: sum.split)

lemma getUsers_steady:
  assumes "length ids \<le> 100"
    and "\<forall>i < 2 * length ids. \<forall>k \<in> set ids. live (clk i) c k = live now c k"
  shows "getUsers ids False clk clk' rq c =
     (if filter (\<lambda>k. \<not> live now c k) ids = [] then
        \<lparr>result = Inr (map (stored c) (filter (live now c) ids)), requests = [], store = c\<rparr>
      else
        (case rq (GET ''/users/multiple''
                    [(''ids'', join '','' (filter (\<lambda>k. \<not> live now c k) ids))]) of
           Inl e \<Rightarrow>
             \<lparr>result = Inl e,
              requests = [GET ''/users/multiple''
                    [(''ids'', join '','' (filter (\<lambda>k. \<not> live now c k) ids))]],
              store = evicted now ids c\<rparr>
         | Inr data \<Rightarrow>
             \<lparr>result = Inr (map (stored c) (filter (live now c) ids) @ map Val data),
              requests = [GET ''/users/multiple''
                    [(''ids'', join '','' (filter (\<lambda>k. \<not> live now c k) ids))]],
              store = snd (for_users data clk' 0
                 (map (stored c) (filter (live now c) ids)) (evicted now ids c))\<rparr>))"
proof -
  from assms(2) have "\<forall>i < 2 * length ids. \<forall>k \<in> set ids. live (clk (0 + i)) c k = live now c k"
    by simp
  note walk = lookups_steady [OF this, of False]
  show ?thesis
    by (simp add: getUsers_lookups [OF assms(1)] walk miss_keys_map [where P = "live now c"]
        hit_values_map [where P = "live now c"] evicted_all_live split: sum.split)
qed

lemmas walk_simps = Cache_has_eq Cache_get_eq live_after_set stored_after_set
  live_AccountsAPI_cache timeout_AccountsAPI_cache_None live_Cache_delete stored_Cache_delete

text \<open>
  \<^bold>\<open>C3\<close> (batch limit). A list of more than 100 keys makes \<open>getUsers\<close> fail with the error
  \<^verbatim>\<open>Cannot get more than 100 users at once\<close> before any store call and any request: no
  request is issued and the store is the one it was given.
\<close>

theorem getUsers_batch_limit:
  assumes "length ids > 100"
  shows "getUsers ids force clk clk' rq c =
           \<lparr>result = Inl (Error ''Cannot get more than 100 users at once''),
            requests = [], store = c\<rparr>"
  using assms by (simp add: getUsers_def)

theorem getUsers_batch_limit_witness:
  "length (replicate 101 ''u'') = 101 \<and>
   getUsers (replicate 101 ''u'') False (\<lambda>_. 0) (\<lambda>_. 0) (\<lambda>_. Inr [bare_user ''u''])
       (AccountsAPI_cache None) =
     \<lparr>result = Inl (Error ''Cannot get more than 100 users at once''),
      requests = [], store = AccountsAPI_cache None\<rparr>"
  using getUsers_batch_limit [of "replicate 101 ''u''" False "\<lambda>_. 0" "\<lambda>_. 0"
      "\<lambda>_. Inr [bare_user ''u'']" "AccountsAPI_cache None"]
  by simp





text \<open>
  \<^bold>\<open>C10\<close> (length of the result). For at most 100 keys, any clock and either value of
  \<open>force\<close>: every occurrence is a hit or a miss, there is no hit under \<open>force\<close> nor for
  a key the store has no entry for, and when no listed key expires during the walk the
  hits are the occurrences of live keys (with \<open>force\<close> false). The result has as many
  elements as there are hit occurrences, plus as many as the server returned. It has
  the length of the input exactly when the server returned as many values as keys were
  requested, and is shorter exactly when the server returned fewer.
\<close>

theorem getUsers_result_length:
  assumes "length ids \<le> 100"
    and "ls = fst (lookups ids force clk 0 c)"
    and "out = getUsers ids force clk clk' rq c"
  shows "length (hit_values ls) + length (miss_keys ls) = length ids \<and>
         (force \<longrightarrow> hit_values ls = []) \<and>
         (\<forall>k v. (k, Hit v) \<in> set ls \<longrightarrow> \<not> force \<and> cache c k \<noteq> None) \<and>
         ((\<forall>i < 2 * length ids. \<forall>k \<in> set ids. live (clk i) c k = live now c k) \<longrightarrow>
            length (hit_values ls) = length (filter (\<lambda>k. live now c k \<and> \<not> force) ids)) \<and>
         (miss_keys ls = [] \<longrightarrow>
            (\<exists>r. result out = Inr r \<and> length r = length (hit_values ls) \<and>
                 length r = length ids)) \<and>
         (miss_keys ls \<noteq> [] \<longrightarrow>
            (\<forall>data. rq (GET ''/users/multiple'' [(''ids'', join '','' (miss_keys ls))]) = Inr data \<longrightarrow>
               (\<exists>r. result out = Inr r \<and>
                    length r = length (hit_values ls) + length data \<and>
                    (length r = length ids) = (length data = length (miss_keys ls)) \<and>
                    (length r < length ids) = (length data < length (miss_keys ls)))))"
proof (intro conjI)
  have "length ls = length ids"
    using lookups_keys [of ids force clk 0 c] by (simp add: assms(2) flip: length_map [of fst])
  then show total: "length (hit_values ls) + length (miss_keys ls) = length ids"
    by (simp add: hits_and_misses)
  show "force \<longrightarrow> hit_values ls = []"
    by (simp add: assms(2) lookups_force hit_values_all_Miss)
  show "\<forall>k v. (k, Hit v) \<in> set ls \<longrightarrow> \<not> force \<and> cache c k \<noteq> None"
    using lookups_hit_origin [of _ _ ids force clk 0 c c] by (fastforce simp: assms(2))
  show "(\<forall>i < 2 * length ids. \<forall>k \<in> set ids. live (clk i) c k = live now c k) \<longrightarrow>
          length (hit_values ls) = length (filter (\<lambda>k. live now c k \<and> \<not> force) ids)"
  proof
    assume "\<forall>i < 2 * length ids. \<forall>k \<in> set ids. live (clk i) c k = live now c k"
    then have "\<forall>i < 2 * length ids. \<forall>k \<in> set ids. live (clk (0 + i)) c k = live now c k"
      by simp
    note walk = lookups_steady [OF this, of force]
    show "length (hit_values ls) = length (filter (\<lambda>k. live now c k \<and> \<not> force) ids)"
      by (simp add: assms(2) walk hit_values_map [where P = "\<lambda>k. live now c k \<and> \<not> force"])
  qed
  show "miss_keys ls = [] \<longrightarrow>
          (\<exists>r. result out = Inr r \<and> length r = length (hit_values ls) \<and> length r = length ids)"
    using total by (auto simp: assms(2-) getUsers_lookups [OF assms(1)])
  show "miss_keys ls \<noteq> [] \<longrightarrow>
          (\<forall>data. rq (GET ''/users/multiple'' [(''ids'', join '','' (miss_keys ls))]) = Inr data \<longrightarrow>
             (\<exists>r. result out = Inr r \<and>
                  length r = length (hit_values ls) + length data \<and>
                  (length r = length ids) = (length data = length (miss_keys ls)) \<and>
                  (length r < length ids) = (length data < length (miss_keys ls))))"
    using total by (auto simp: assms(2-) getUsers_lookups [OF assms(1)])
qed

theorem getUsers_result_length_witness:
  "(\<exists>r. result (getUsers [''a'', ''b'', ''c''] False (\<lambda>n. 1000 + int n) (\<lambda>n. 1200 + int n)
           (\<lambda>_. Inr [bare_user ''c''])
           (Cache_set ''a'' (Val (bare_user ''a'')) None 0 (AccountsAPI_cache None))) = Inr r \<and>
        length r = 2 \<and> length r < length [''a'', ''b'', ''c'']) \<and>
   (\<exists>r. result (getUsers [''b''] False (\<lambda>n. 1000 + int n) (\<lambda>n. 1200 + int n)
           (\<lambda>_. Inr [bare_user ''b'', bare_user ''x''])
           (Cache_set ''a'' (Val (bare_user ''a'')) None 0 (AccountsAPI_cache None))) = Inr r \<and>
        length r = 2 \<and> length [''b''] < length r) \<and>
   (\<exists>r. result (getUsers [''a''] True (\<lambda>n. 1000 + int n) (\<lambda>n. 1200 + int n)
           (\<lambda>_. Inr [bare_user ''a'', bare_user ''x''])
           (Cache_set ''a'' (Val (bare_user ''a'')) None 0 (AccountsAPI_cache None))) = Inr r \<and>
        length r = 2 \<and> length [''a''] < length r)"
proof -
  let ?c = "Cache_set ''a'' (Val (bare_user ''a'')) None 0 (AccountsAPI_cache None)"
  have one: "fst (lookups [''a'', ''b'', ''c''] False (\<lambda>n. 1000 + int n) 0 ?c) =
      [(''a'', Hit (Val (bare_user ''a''))), (''b'', Miss), (''c'', Miss)]"
    by (simp add: walk_simps)
  have two: "fst (lookups [''b''] False (\<lambda>n. 1000 + int n) 0 ?c) = [(''b'', Miss)]"
    by (simp add: walk_simps)
  have three: "fst (lookups [''a''] True (\<lambda>n. 1000 + int n) 0 ?c) = [(''a'', Miss)]"
    by (simp add: walk_simps)
  note fetched = conjunct2 [THEN conjunct2, THEN conjunct2, THEN conjunct2, THEN conjunct2]
  show ?thesis
    using
      getUsers_result_length [where ids = "[''a'', ''b'', ''c'']" and force = False
        and clk = "\<lambda>n. 1000 + int n" and c = ?c and clk' = "\<lambda>n. 1200 + int n"
        and rq = "\<lambda>_. Inr [bare_user ''c'']", OF _ refl refl, THEN fetched]
      getUsers_result_length [where ids = "[''b'']" and force = False
        and clk = "\<lambda>n. 1000 + int n" and c = ?c and clk' = "\<lambda>n. 1200 + int n"
        and rq = "\<lambda>_. Inr [bare_user ''b'', bare_user ''x'']", OF _ refl refl, THEN fetched]
      getUsers_result_length [where ids = "[''a'']" and force = True
        and clk = "\<lambda>n. 1000 + int n" and c = ?c and clk' = "\<lambda>n. 1200 + int n"
        and rq = "\<lambda>_. Inr [bare_user ''a'', bare_user ''x'']", OF _ refl refl, THEN fetched]
    by (auto simp: one two three simp del: lookups.simps)
qed

text \<open>
  \<^bold>\<open>C5\<close> (failure of the remote fetch). When a request that \<open>getUser\<close> or \<open>getUsers\<close> has
  issued is rejected with \<open>e\<close>, the method fails with that same \<open>e\<close>: it has issued that
  one request and no other, it returns no value (the hits of the walk are dropped with
  the rest), and it has written nothing: every entry of the store it leaves is an
  entry of the store it was given, and the default timeout is unchanged.
\<close>

theorem remote_failure_propagates:
  "(q \<in> set (requests (getUser uid force clk clk' rq1 c)) \<and> rq1 q = Inl e \<longrightarrow>
      result (getUser uid force clk clk' rq1 c) = Inl e \<and>
      requests (getUser uid force clk clk' rq1 c) = [q] \<and>
      cache (store (getUser uid force clk clk' rq1 c)) \<subseteq>\<^sub>m cache c \<and>
      timeout (store (getUser uid force clk clk' rq1 c)) = timeout c) \<and>
   (q \<in> set (requests (getUsers ids force clk clk' rq c)) \<and> rq q = Inl e \<longrightarrow>
      result (getUsers ids force clk clk' rq c) = Inl e \<and>
      requests (getUsers ids force clk clk' rq c) = [q] \<and>
      cache (store (getUsers ids force clk clk' rq c)) \<subseteq>\<^sub>m cache c \<and>
      timeout (store (getUsers ids force clk clk' rq c)) = timeout c)"
proof (intro conjI impI; elim conjE)
  assume "q \<in> set (requests (getUser uid force clk clk' rq1 c))" and "rq1 q = Inl e"
  then have "getUser uid force clk clk' rq1 c =
      \<lparr>result = Inl e, requests = [q], store = snd (Cache_has uid (clk 0) c)\<rparr>"
    by (auto simp: getUser_def case_prod_beta split: if_splits sum.splits)
  then show "result (getUser uid force clk clk' rq1 c) = Inl e"
    and "requests (getUser uid force clk clk' rq1 c) = [q]"
    and "cache (store (getUser uid force clk clk' rq1 c)) \<subseteq>\<^sub>m cache c"
    and "timeout (store (getUser uid force clk clk' rq1 c)) = timeout c"
    by (simp_all add: cache_Cache_has_le timeout_Cache_has)
next
  assume "q \<in> set (requests (getUsers ids force clk clk' rq c))" and "rq q = Inl e"
  then have "getUsers ids force clk clk' rq c =
      \<lparr>result = Inl e, requests = [q],
       store = snd (snd (for_ids ids force clk 0 [] [] c))\<rparr>"
    by (auto simp: getUsers_def case_prod_beta split: if_splits sum.splits)
  then show "result (getUsers ids force clk clk' rq c) = Inl e"
    and "requests (getUsers ids force clk clk' rq c) = [q]"
    and "cache (store (getUsers ids force clk clk' rq c)) \<subseteq>\<^sub>m cache c"
    and "timeout (store (getUsers ids force clk clk' rq c)) = timeout c"
    by (simp_all add: for_ids_store)
qed

theorem remote_failure_propagates_witness:
  "result (getUser ''a'' True (\<lambda>n. 1000 + int n) (\<lambda>n. 1200 + int n)
      (\<lambda>_. Inl (AccountsAPIError ''Not Found'' 404))
      (Cache_set ''a'' (Val (bare_user ''a'')) None 0 (AccountsAPI_cache None)))
     = Inl (AccountsAPIError ''Not Found'' 404) \<and>
   requests (getUser ''a'' True (\<lambda>n. 1000 + int n) (\<lambda>n. 1200 + int n)
      (\<lambda>_. Inl (AccountsAPIError ''Not Found'' 404))
      (Cache_set ''a'' (Val (bare_user ''a'')) None 0 (AccountsAPI_cache None)))
     = [GET ''/users/a'' []] \<and>
   result (getUsers [''a'', ''b''] False (\<lambda>n. 1000 + int n) (\<lambda>n. 1200 + int n)
      (\<lambda>_. Inl (Error ''socket hang up''))
      (Cache_set ''a'' (Val (bare_user ''a'')) None 0 (AccountsAPI_cache None)))
     = Inl (Error ''socket hang up'') \<and>
   requests (getUsers [''a'', ''b''] False (\<lambda>n. 1000 + int n) (\<lambda>n. 1200 + int n)
      (\<lambda>_. Inl (Error ''socket hang up''))
      (Cache_set ''a'' (Val (bare_user ''a'')) None 0 (AccountsAPI_cache None)))
     = [GET ''/users/multiple'' [(''ids'', ''b'')]]"
proof -
  let ?c = "Cache_set ''a'' (Val (bare_user ''a'')) None 0 (AccountsAPI_cache None)"
  have one: "GET ''/users/a'' [] \<in> set (requests (getUser ''a'' True (\<lambda>n. 1000 + int n) (\<lambda>n. 1200 + int n)
      (\<lambda>_. Inl (AccountsAPIError ''Not Found'' 404)) ?c))"
    by (simp add: getUser_def case_prod_beta)
  have many: "GET ''/users/multiple'' [(''ids'', ''b'')] \<in>
      set (requests (getUsers [''a'', ''b''] False (\<lambda>n. 1000 + int n) (\<lambda>n. 1200 + int n)
        (\<lambda>_. Inl (Error ''socket hang up'')) ?c))"
    by (simp add: getUsers_steady [where now = 1000] live_after_set live_AccountsAPI_cache
        timeout_AccountsAPI_cache_None)
  show ?thesis
    using
      remote_failure_propagates [where q = "GET ''/users/a'' []" and uid = "''a''"
        and force = True and clk = "\<lambda>n. 1000 + int n" and clk' = "\<lambda>n. 1200 + int n"
        and ?rq1.0 = "\<lambda>_. Inl (AccountsAPIError ''Not Found'' 404)" and c = ?c
        and e = "AccountsAPIError ''Not Found'' 404"]
      remote_failure_propagates [where q = "GET ''/users/multiple'' [(''ids'', ''b'')]"
        and ids = "[''a'', ''b'']" and force = False and clk = "\<lambda>n. 1000 + int n"
        and clk' = "\<lambda>n. 1200 + int n" and rq = "\<lambda>_. Inl (Error ''socket hang up'')" and c = ?c
        and e = "Error ''socket hang up''"]
      one many
    by simp
qed

end
